theory Spec2Isabelle
  imports Complex_Main "HOL-Library.Word"
begin

section \<open>Strings of the host language\<close>

text \<open>
  A string of the source is a finite sequence of 16-bit code units; its \<open>length\<close> counts
  code units, \<open>slice\<close> cuts by code-unit index. The model keeps that: a string is a
  list of 16-bit words, \<open>s.length\<close> is \<open>length s\<close>, \<open>s.slice(0, k)\<close> is \<open>take k s\<close>
  and \<open>s.slice(k)\<close> is \<open>drop k s\<close> (for \<open>0 \<le> k\<close>, the only case the source has).
\<close>

type_synonym code_unit = "16 word"
type_synonym jsstring = "code_unit list"

definition LF :: code_unit where
  "LF = 0x0A"

definition SPACE :: code_unit where
  "SPACE = 0x20"

text \<open>
  The code units \<open>String.prototype.trim\<close> strips: the language's white space
  (TAB, VT, FF, SP, NBSP, ZWNBSP and the space separators) and its line terminators
  (LF, CR, LS, PS).
\<close>

definition isWhiteSpace :: "code_unit \<Rightarrow> bool" where
  "isWhiteSpace c \<longleftrightarrow>
     c = 0x09 \<or> c = 0x0A \<or> c = 0x0B \<or> c = 0x0C \<or> c = 0x0D \<or> c = 0x20 \<or> c = 0xA0 \<or>
     c = 0x1680 \<or> (0x2000 \<le> c \<and> c \<le> 0x200A) \<or> c = 0x2028 \<or> c = 0x2029 \<or>
     c = 0x202F \<or> c = 0x205F \<or> c = 0x3000 \<or> c = 0xFEFF"

definition trim :: "jsstring \<Rightarrow> jsstring" where
  "trim s = rev (dropWhile isWhiteSpace (rev (dropWhile isWhiteSpace s)))"

text \<open>
  \<open>s.lastIndexOf(c)\<close> for a one-unit search string: the greatest index holding \<open>c\<close>,
  or \<open>-1\<close>.
\<close>

fun lastIndexOf :: "jsstring \<Rightarrow> code_unit \<Rightarrow> int" where
  "lastIndexOf [] c = -1"
| "lastIndexOf (x # xs) c =
     (let r = lastIndexOf xs c in if 0 \<le> r then r + 1 else if x = c then 0 else -1)"

subsection \<open>Splitting on a regular expression\<close>

text \<open>
  \<open>s.split(re)\<close> walks the string with a start \<open>p\<close> of the current piece and a
  position \<open>q\<close>: where \<open>re\<close> matches at \<open>q\<close> the piece \<open>s[p..q)\<close> is emitted and both
  move behind the match, otherwise \<open>q\<close> moves on by one; the last piece is emitted at
  the end, also when it is empty. A matcher gives the length of the match of its
  expression at the head of the remaining text. Neither expression of the source
  matches the empty string, so a match of length 0 is read as no match.
  \<open>piece\<close> is \<open>s[p..q)\<close>, the second list is \<open>s[q..]\<close>.
\<close>

type_synonym matcher = "jsstring \<Rightarrow> nat option"

function split_from :: "matcher \<Rightarrow> jsstring \<Rightarrow> jsstring \<Rightarrow> jsstring list" where
  "split_from m piece [] = [piece]"
| "split_from m piece (c # cs) =
     (case m (c # cs) of
        None \<Rightarrow> split_from m (piece @ [c]) cs
      | Some n \<Rightarrow>
          if n = 0 then split_from m (piece @ [c]) cs
          else piece # split_from m [] (drop n (c # cs)))"
  by pat_completeness auto
termination
  by (relation "measure (\<lambda>(m, piece, s). length s)") auto

definition split :: "matcher \<Rightarrow> jsstring \<Rightarrow> jsstring list" where
  "split m s = split_from m [] s"

text \<open>
  The class \<open>[\n\n]\<close> holds the line feed (named twice), and \<open>+\<close> is greedy: the
  first alternative of \<open>/[\n\n]+|\n/\<close> takes the whole run of line feeds at the
  position. The second alternative \<open>\n\<close> is tried where the first fails.
\<close>

definition match_class_plus :: matcher where
  "match_class_plus s =
     (let n = length (takeWhile (\<lambda>c. c = LF \<or> c = LF) s) in if 0 < n then Some n else None)"

definition match_newline :: matcher where
  "match_newline s = (case s of [] \<Rightarrow> None | c # cs \<Rightarrow> if c = LF then Some 1 else None)"

definition match_paragraph :: matcher where
  "match_paragraph s =
     (case match_class_plus s of Some n \<Rightarrow> Some n | None \<Rightarrow> match_newline s)"

section \<open>The segmenter\<close>

definition MAX_CHARS_PER_LINE :: nat where
  "MAX_CHARS_PER_LINE = 72"

text \<open>
  The break position of one round of the wrapping loop:
  \<open>slice = rest.slice(0, MAX + 1)\<close>, \<open>lastSpace = slice.lastIndexOf(" ")\<close>,
  \<open>breakAt = lastSpace > 0 ? lastSpace + 1 : MAX\<close>.
\<close>

definition breakAt :: "jsstring \<Rightarrow> nat" where
  "breakAt rest =
     (let slice = take (MAX_CHARS_PER_LINE + 1) rest;
          lastSpace = lastIndexOf slice SPACE
      in if 0 < lastSpace then nat (lastSpace + 1) else MAX_CHARS_PER_LINE)"

text \<open>
  The loop \<open>while (rest.length > 0) { ... }\<close> of \<open>splitLongSegment\<close>, on the pair of
  its variables \<open>chunks\<close> and \<open>rest\<close>; \<open>break\<close> leaves it with the chunks so far.
\<close>

function wrapLoop :: "jsstring list \<Rightarrow> jsstring \<Rightarrow> jsstring list" where
  "wrapLoop chunks rest =
     (if 0 < length rest then
        if length rest \<le> MAX_CHARS_PER_LINE then chunks @ [rest]
        else wrapLoop (chunks @ [trim (take (breakAt rest) rest)])
                      (trim (drop (breakAt rest) rest))
      else chunks)"
  by pat_completeness auto
termination
proof (relation "measure (\<lambda>(chunks, rest). length rest)")
  show "wf (measure (\<lambda>(chunks, rest). length rest))"
    by simp
next
  fix chunks :: "jsstring list" and rest :: jsstring
  assume long: "\<not> length rest \<le> MAX_CHARS_PER_LINE"
  have pos: "0 < breakAt rest"
    by (simp add: breakAt_def MAX_CHARS_PER_LINE_def Let_def)
  have "length (dropWhile isWhiteSpace (rev (dropWhile isWhiteSpace (drop (breakAt rest) rest))))
          \<le> length (rev (dropWhile isWhiteSpace (drop (breakAt rest) rest)))"
    by (rule length_dropWhile_le)
  also have "\<dots> \<le> length (drop (breakAt rest) rest)"
    unfolding length_rev by (rule length_dropWhile_le)
  finally have "length (trim (drop (breakAt rest) rest)) \<le> length (drop (breakAt rest) rest)"
    by (simp add: trim_def)
  also have "\<dots> < length rest"
    using pos long by (simp add: MAX_CHARS_PER_LINE_def)
  finally show "((chunks @ [trim (take (breakAt rest) rest)], trim (drop (breakAt rest) rest)),
                 (chunks, rest)) \<in> measure (\<lambda>(chunks, rest). length rest)"
    by simp
qed

declare wrapLoop.simps [simp del]

definition splitLongSegment :: "jsstring \<Rightarrow> jsstring list" where
  "splitLongSegment segment =
     (if length segment \<le> MAX_CHARS_PER_LINE then [segment]
      else wrapLoop [] (trim segment))"

text \<open>
  \<open>segments.flatMap((s, i) => (i === 0 ? [s] : ["\n", s]))\<close>: the one-unit string
  \<open>"\n"\<close> is the spacer put before every part but the first.
\<close>

definition spacer :: jsstring where
  "spacer = [LF]"

definition withEmptyBetween :: "jsstring list \<Rightarrow> jsstring list" where
  "withEmptyBetween segments =
     (if 1 < length segments
      then concat (map (\<lambda>(i, s). if i = 0 then [s] else [spacer, s]) (enumerate 0 segments))
      else segments)"

definition getSegments :: "jsstring \<Rightarrow> jsstring list" where
  "getSegments text =
     (let byParagraph = split match_paragraph text;
          segments =
            (if 1 < length byParagraph then byParagraph
             else (let byLine = split match_newline text
                   in if 1 < length byLine then byLine else [text]))
      in concat (map splitLongSegment (withEmptyBetween segments)))"

section \<open>The scroll controller\<close>

text \<open>
  Numbers of the source are modelled as reals: the controller only adds, multiplies,
  divides by a constant and takes minima and maxima. The layout the component reads from
  the page is data of the model: the scroll container (\<open>containerRef\<close>), the content
  block inside it (\<open>contentRef\<close>) and one paragraph element per text segment
  (\<open>segmentRefs\<close>; a spacer is drawn without a reference, so its entry is empty).
  A reference that is not mounted is \<open>None\<close>.
\<close>

datatype error = TypeError

datatype direction = Next | Prev

record container_el =
  container_scrollTop :: real
  container_clientHeight :: real
  container_scrollHeight :: real

record content_el =
  content_scrollHeight :: real

record p_el =
  offsetTop :: real
  offsetHeight :: real

record view =
  segments :: "jsstring list"
  playing :: bool
  currentSpeed :: real
  scrollPosition :: real
  lastTimeRef :: real
  maxScroll :: real
  viewportHeight :: real
  containerRef :: "container_el option"
  contentRef :: "content_el option"
  segmentRefs :: "p_el option list"

definition SPEED_MIN :: real where
  "SPEED_MIN = 1"

definition SPEED_MAX :: real where
  "SPEED_MAX = 10"

definition PX_PER_SEC_BASE :: real where
  "PX_PER_SEC_BASE = 5"

definition PX_PER_SEC_PER_UNIT :: real where
  "PX_PER_SEC_PER_UNIT = 3"


definition getPxPerSecond :: "real \<Rightarrow> real" where
  "getPxPerSecond speed = PX_PER_SEC_BASE + speed * PX_PER_SEC_PER_UNIT"

text \<open>
  \<open>Math.max(0, content.scrollHeight - container.clientHeight)\<close>: the bound that
  \<open>updateMaxScroll\<close> stores and that \<open>step\<close> and \<open>stepScroll\<close> compute afresh.
\<close>

definition maxOffset :: "container_el \<Rightarrow> content_el \<Rightarrow> real" where
  "maxOffset container content =
     max 0 (content_scrollHeight content - container_clientHeight container)"

definition updateMaxScroll :: "view \<Rightarrow> view" where
  "updateMaxScroll v =
     (case containerRef v of
        None \<Rightarrow> v
      | Some container \<Rightarrow>
          (case contentRef v of
             None \<Rightarrow> v
           | Some content \<Rightarrow>
               v\<lparr>viewportHeight := container_clientHeight container,
                 maxScroll := max 0 (content_scrollHeight content - container_clientHeight container)\<rparr>))"

text \<open>
  The frame callback \<open>step(now)\<close>. It is created only while playing and with both
  elements mounted, so the two elements are arguments; their sizes are read at the call.
\<close>

definition step :: "container_el \<Rightarrow> content_el \<Rightarrow> real \<Rightarrow> view \<Rightarrow> view" where
  "step container content now v =
     (let dt = (now - lastTimeRef v) / 1000;
          mx = max 0 (content_scrollHeight content - container_clientHeight container);
          prev = scrollPosition v;
          next = prev + getPxPerSecond (currentSpeed v) * dt
      in if 0 < mx \<and> mx \<le> next
         then v\<lparr>lastTimeRef := now, playing := False, scrollPosition := mx\<rparr>
         else v\<lparr>lastTimeRef := now, scrollPosition := min next mx\<rparr>)"

text \<open>The scroll listener: \<open>setScrollPosition(container.scrollTop)\<close>.\<close>

definition onScroll :: "view \<Rightarrow> view" where
  "onScroll v =
     (case containerRef v of
        None \<Rightarrow> v
      | Some container \<Rightarrow> v\<lparr>scrollPosition := container_scrollTop container\<rparr>)"


definition handleReset :: "view \<Rightarrow> view" where
  "handleReset v =
     v\<lparr>scrollPosition := 0,
       containerRef := map_option (\<lambda>c. c\<lparr>container_scrollTop := 0\<rparr>) (containerRef v)\<rparr>"

text \<open>
  The segments the component shows: \<open>config?.text ? getSegments(config.text) : []\<close>.
  No configuration and an empty text both give no segments.
\<close>

definition segmentsOf :: "jsstring option \<Rightarrow> jsstring list" where
  "segmentsOf config =
     (case config of
        None \<Rightarrow> []
      | Some text \<Rightarrow> if text = [] then [] else getSegments text)"

text \<open>
  The state the component starts with (\<open>useState(false)\<close>, \<open>useState(5)\<close>,
  \<open>useState(0)\<close>, \<open>useRef(0)\<close>), once the segments are computed and the elements are
  mounted.
\<close>

definition initialView ::
  "jsstring list \<Rightarrow> container_el \<Rightarrow> content_el \<Rightarrow> p_el option list \<Rightarrow> view" where
  "initialView segs container content refs =
     \<lparr>segments = segs, playing = False, currentSpeed = 5, scrollPosition = 0,
      lastTimeRef = 0, maxScroll = 0, viewportHeight = 0,
      containerRef = Some container, contentRef = Some content, segmentRefs = refs\<rparr>"

subsection \<open>Seeking a segment\<close>

text \<open>
  \<open>isEmpty(idx)\<close> is \<open>segments[idx].trim() === ""\<close>. Outside the list
  \<open>segments[idx]\<close> is \<open>undefined\<close> and the call of \<open>trim\<close> on it raises a TypeError.
\<close>

definition isEmpty :: "jsstring list \<Rightarrow> int \<Rightarrow> error + bool" where
  "isEmpty segs idx =
     (if 0 \<le> idx \<and> idx < int (length segs) then Inr (trim (segs ! nat idx) = [])
      else Inl TypeError)"

text \<open>\<open>while (i < segments.length && isEmpty(i)) i++\<close>, giving the final \<open>i\<close>.\<close>

function walkForward :: "jsstring list \<Rightarrow> int \<Rightarrow> error + int" where
  "walkForward segs i =
     (if i < int (length segs) then
        (case isEmpty segs i of
           Inl e \<Rightarrow> Inl e
         | Inr b \<Rightarrow> if b then walkForward segs (i + 1) else Inr i)
      else Inr i)"
  by pat_completeness auto
termination
  by (relation "measure (\<lambda>(segs, i). nat (int (length segs) - i))") auto

declare walkForward.simps [simp del]

text \<open>\<open>while (i >= 0 && isEmpty(i)) i--\<close>, giving the final \<open>i\<close>.\<close>

function walkBackward :: "jsstring list \<Rightarrow> int \<Rightarrow> error + int" where
  "walkBackward segs i =
     (if 0 \<le> i then
        (case isEmpty segs i of
           Inl e \<Rightarrow> Inl e
         | Inr b \<Rightarrow> if b then walkBackward segs (i - 1) else Inr i)
      else Inr i)"
  by pat_completeness auto
termination
  by (relation "measure (\<lambda>(segs, i). nat (i + 1))") auto

declare walkBackward.simps [simp del]

text \<open>
  The index \<open>goToSegment\<close> settles on (the part of the function before it reads the
  layout), for a list that is not empty. Without a direction the backward walk starts
  at the argument \<open>index\<close> itself, not at the clamped index.
\<close>

definition targetIndex :: "jsstring list \<Rightarrow> int \<Rightarrow> direction option \<Rightarrow> error + int" where
  "targetIndex segs index dir =
     (let n = int (length segs);
          i = max 0 (min index (n - 1))
      in case isEmpty segs i of
           Inl e \<Rightarrow> Inl e
         | Inr b \<Rightarrow>
             if \<not> b then Inr i
             else (case dir of
                     Some Next \<Rightarrow>
                       (case walkForward segs i of
                          Inl e \<Rightarrow> Inl e
                        | Inr j \<Rightarrow> Inr (min j (n - 1)))
                   | Some Prev \<Rightarrow>
                       (case walkBackward segs i of
                          Inl e \<Rightarrow> Inl e
                        | Inr j \<Rightarrow> Inr (max j 0))
                   | None \<Rightarrow>
                       (case walkForward segs i of
                          Inl e \<Rightarrow> Inl e
                        | Inr j \<Rightarrow>
                            if n \<le> j then
                              (case walkBackward segs index of
                                 Inl e \<Rightarrow> Inl e
                               | Inr k \<Rightarrow> Inr (max k 0))
                            else Inr (min j (n - 1)))))"

text \<open>\<open>segmentRefs.current[i]\<close>: an entry that was never set reads as no element.\<close>

definition segmentRef :: "view \<Rightarrow> int \<Rightarrow> p_el option" where
  "segmentRef v i =
     (if 0 \<le> i \<and> i < int (length (segmentRefs v)) then segmentRefs v ! nat i else None)"

definition goToSegment :: "int \<Rightarrow> direction option \<Rightarrow> view \<Rightarrow> error + view" where
  "goToSegment index dir v =
     (if length (segments v) = 0 then Inr v
      else case targetIndex (segments v) index dir of
             Inl e \<Rightarrow> Inl e
           | Inr i \<Rightarrow>
               (case segmentRef v i of
                  None \<Rightarrow> Inr v
                | Some el \<Rightarrow>
                    (case containerRef v of
                       None \<Rightarrow> Inr v
                     | Some container \<Rightarrow>
                         (let targetScroll =
                                offsetTop el - container_clientHeight container / 2
                                  + offsetHeight el / 2;
                              clamped =
                                max 0 (min targetScroll
                                  (container_scrollHeight container
                                     - container_clientHeight container))
                          in Inr (v\<lparr>scrollPosition := clamped,
                                    containerRef :=
                                      Some (container\<lparr>container_scrollTop := clamped\<rparr>)\<rparr>)))))"

section \<open>Properties of the segmenter\<close>

subsection \<open>Trimming and searching\<close>

lemma length_trim_le: "length (trim s) \<le> length s"
proof -
  have "length (trim s) \<le> length (dropWhile isWhiteSpace s)"
    unfolding trim_def length_rev
    using length_dropWhile_le [of isWhiteSpace "rev (dropWhile isWhiteSpace s)"] by simp
  also have "\<dots> \<le> length s"
    by (rule length_dropWhile_le)
  finally show ?thesis .
qed

lemma length_trim_less:
  assumes "s \<noteq> []" and "isWhiteSpace (last s)"
  shows "length (trim s) < length s"
proof (cases "dropWhile isWhiteSpace s = []")
  case True
  have "trim s = []" unfolding trim_def True by simp
  then show ?thesis using assms by simp
next
  case False
  define t where "t = dropWhile isWhiteSpace s"
  have t: "t \<noteq> []" using False by (simp add: t_def)
  have "t = drop (length (takeWhile isWhiteSpace s)) s"
    by (simp add: t_def dropWhile_eq_drop)
  moreover from this t have "length (takeWhile isWhiteSpace s) < length s"
    by (cases "length (takeWhile isWhiteSpace s) < length s") simp_all
  ultimately have "last t = last s"
    by (simp add: last_drop)
  with assms have ws: "isWhiteSpace (hd (rev t))"
    using t by (simp add: hd_rev)
  have "rev t \<noteq> []" using t by simp
  then obtain x xs where r: "rev t = x # xs" by (cases "rev t") auto
  with ws have "dropWhile isWhiteSpace (rev t) = dropWhile isWhiteSpace xs" by simp
  then have "length (dropWhile isWhiteSpace (rev t)) \<le> length xs"
    by (simp add: length_dropWhile_le)
  also have "\<dots> < length t"
  proof -
    have "length (rev t) = Suc (length xs)" by (simp only: r length_Cons)
    then show ?thesis by simp
  qed
  also have "\<dots> \<le> length s"
    by (simp add: t_def length_dropWhile_le)
  finally show ?thesis by (simp add: trim_def t_def)
qed

lemma lastIndexOf_bounds: "- 1 \<le> lastIndexOf xs c \<and> lastIndexOf xs c < int (length xs)"
  by (induction xs) (auto simp: Let_def)

lemma lastIndexOf_nth: "0 \<le> lastIndexOf xs c \<Longrightarrow> xs ! nat (lastIndexOf xs c) = c"
proof (induction xs)
  case Nil
  then show ?case by simp
next
  case (Cons x xs)
  show ?case
  proof (cases "0 \<le> lastIndexOf xs c")
    case True
    then have "nat (lastIndexOf xs c + 1) = Suc (nat (lastIndexOf xs c))" by simp
    with True Cons.IH show ?thesis by (simp add: Let_def)
  next
    case False
    with Cons.prems show ?thesis by (auto simp: Let_def split: if_splits)
  qed
qed

lemma breakAt_pos: "1 \<le> breakAt rest"
  by (auto simp: breakAt_def MAX_CHARS_PER_LINE_def Let_def)

lemma breakAt_le: "breakAt rest \<le> MAX_CHARS_PER_LINE + 1"
  using lastIndexOf_bounds [of "take (MAX_CHARS_PER_LINE + 1) rest" SPACE]
  by (auto simp: breakAt_def Let_def)

lemma isWhiteSpace_SPACE: "isWhiteSpace SPACE"
  by (simp add: isWhiteSpace_def SPACE_def)

lemma chunk_length:
  assumes "MAX_CHARS_PER_LINE < length rest"
  shows "length (trim (take (breakAt rest) rest)) \<le> MAX_CHARS_PER_LINE"
proof (cases "0 < lastIndexOf (take (MAX_CHARS_PER_LINE + 1) rest) SPACE")
  case False
  then have "breakAt rest = MAX_CHARS_PER_LINE" by (simp add: breakAt_def Let_def)
  then show ?thesis
    using length_trim_le [of "take (breakAt rest) rest"] by simp
next
  case True
  define slice where "slice = take (MAX_CHARS_PER_LINE + 1) rest"
  define k where "k = nat (lastIndexOf slice SPACE)"
  have b: "breakAt rest = Suc k"
    using True by (simp add: breakAt_def Let_def slice_def k_def nat_add_distrib)
  have klt: "k < length slice"
    using True lastIndexOf_bounds [of slice SPACE] unfolding k_def slice_def by linarith
  have "length slice \<le> length rest" "length slice \<le> Suc MAX_CHARS_PER_LINE"
    by (simp_all add: slice_def)
  with klt have klt': "k < length rest" "k \<le> MAX_CHARS_PER_LINE"
    by linarith+
  have "slice ! k = SPACE"
    using True lastIndexOf_nth [of slice SPACE] by (simp add: k_def slice_def)
  then have "rest ! k = SPACE"
    using klt by (simp add: slice_def)
  then have "last (take (Suc k) rest) = SPACE"
    using klt' by (simp add: take_Suc_conv_app_nth)
  moreover have "take (Suc k) rest \<noteq> []"
    using klt' by auto
  ultimately have "length (trim (take (Suc k) rest)) < length (take (Suc k) rest)"
    by (intro length_trim_less) (simp_all add: isWhiteSpace_SPACE)
  then show ?thesis using klt' b by simp
qed

lemma rest_shrinks:
  assumes "MAX_CHARS_PER_LINE < length rest"
  shows "length (trim (drop (breakAt rest) rest)) < length rest"
proof -
  have "length (trim (drop (breakAt rest) rest)) \<le> length rest - breakAt rest"
    using length_trim_le [of "drop (breakAt rest) rest"] by simp
  also have "\<dots> < length rest"
    using assms breakAt_pos [of rest] by (simp add: MAX_CHARS_PER_LINE_def)
  finally show ?thesis .
qed

lemma wrapLoop_chunks_short:
  "(\<forall>c \<in> set chunks. length c \<le> MAX_CHARS_PER_LINE)
   \<Longrightarrow> \<forall>c \<in> set (wrapLoop chunks rest). length c \<le> MAX_CHARS_PER_LINE"
proof (induction chunks rest rule: wrapLoop.induct)
  case (1 chunks rest)
  show ?case
  proof (cases "0 < length rest \<and> \<not> length rest \<le> MAX_CHARS_PER_LINE")
    case True
    then have long: "MAX_CHARS_PER_LINE < length rest" by simp
    have "\<forall>c \<in> set (chunks @ [trim (take (breakAt rest) rest)]). length c \<le> MAX_CHARS_PER_LINE"
      using "1.prems" chunk_length [OF long] by simp
    then have "\<forall>c \<in> set (wrapLoop (chunks @ [trim (take (breakAt rest) rest)])
                 (trim (drop (breakAt rest) rest))). length c \<le> MAX_CHARS_PER_LINE"
      using "1.IH" True by simp
    then show ?thesis
      using True by (subst wrapLoop.simps) simp
  next
    case False
    then show ?thesis
      using "1.prems" by (subst wrapLoop.simps) auto
  qed
qed

lemma wrapLoop_length:
  "length (wrapLoop chunks rest) \<le> length chunks + length rest"
proof (induction chunks rest rule: wrapLoop.induct)
  case (1 chunks rest)
  show ?case
  proof (cases "0 < length rest \<and> \<not> length rest \<le> MAX_CHARS_PER_LINE")
    case True
    then have long: "MAX_CHARS_PER_LINE < length rest" by simp
    have "length (wrapLoop (chunks @ [trim (take (breakAt rest) rest)])
                 (trim (drop (breakAt rest) rest)))
          \<le> length (chunks @ [trim (take (breakAt rest) rest)]) + length (trim (drop (breakAt rest) rest))"
      using "1.IH" True by simp
    also have "\<dots> \<le> length chunks + length rest"
      using rest_shrinks [OF long] by simp
    finally show ?thesis
      using True by (subst wrapLoop.simps) simp
  next
    case False
    then show ?thesis
      by (subst wrapLoop.simps) (cases rest; auto)
  qed
qed

lemma splitLongSegment_short:
  "\<forall>c \<in> set (splitLongSegment segment). length c \<le> MAX_CHARS_PER_LINE"
  using wrapLoop_chunks_short [of "[]" "trim segment"]
  by (simp add: splitLongSegment_def)

subsection \<open>Claims about wrapping\<close>

text \<open>
  C3: for every input text, every segment that \<open>getSegments\<close> produces has at most
  \<open>MAX_CHARS_PER_LINE = 72\<close> code units. This holds for every element of the result,
  the chunks of a wrapped part included; a spacer is one code unit long, so the bound on
  the segments that are not spacers is the special case.
\<close>

theorem getSegments_lengths:
  "\<forall>s \<in> set (getSegments text). length s \<le> MAX_CHARS_PER_LINE"
  using splitLongSegment_short by (auto simp: getSegments_def Let_def)

theorem getSegments_lengths_witness:
  "replicate 72 0x61 \<in> set (getSegments (replicate 100 0x61))
   \<and> length (replicate 72 (0x61 :: code_unit)) \<le> MAX_CHARS_PER_LINE"
proof -
  have mem: "replicate 72 0x61 \<in> set (getSegments (replicate 100 0x61))"
    by code_simp
  from getSegments_lengths [of "replicate 100 0x61"] mem
  have "length (replicate 72 (0x61 :: code_unit)) \<le> MAX_CHARS_PER_LINE"
    by (rule bspec)
  with mem show ?thesis by simp
qed

text \<open>
  C10: the wrapping loop of \<open>splitLongSegment\<close> terminates on every input. In a round
  where the remainder is longer than \<open>MAX_CHARS_PER_LINE\<close> the break position is at
  least 1 and the new remainder is strictly shorter than the old one; this is the
  measure under which \<open>wrapLoop\<close> is a total function. The loop therefore returns a list
  with at most one chunk per code unit of the remainder, and so does
  \<open>splitLongSegment\<close>.
\<close>

theorem wrapLoop_terminates:
  "(MAX_CHARS_PER_LINE < length rest \<longrightarrow>
      1 \<le> breakAt rest \<and> length (trim (drop (breakAt rest) rest)) < length rest)
   \<and> length (wrapLoop chunks rest) \<le> length chunks + length rest
   \<and> length (splitLongSegment segment) \<le> max 1 (length segment)"
proof -
  have "length (splitLongSegment segment) \<le> max 1 (length segment)"
  proof (cases "length segment \<le> MAX_CHARS_PER_LINE")
    case True
    then show ?thesis by (simp add: splitLongSegment_def)
  next
    case False
    have "length (wrapLoop [] (trim segment)) \<le> length (trim segment)"
      using wrapLoop_length [of "[]" "trim segment"] by simp
    also have "\<dots> \<le> length segment"
      by (rule length_trim_le)
    finally show ?thesis using False by (simp add: splitLongSegment_def)
  qed
  then show ?thesis
    using breakAt_pos [of rest] rest_shrinks [of rest] wrapLoop_length [of chunks rest]
    by simp
qed

theorem wrapLoop_terminates_witness:
  "MAX_CHARS_PER_LINE < length (replicate 100 (0x61 :: code_unit))
   \<and> 1 \<le> breakAt (replicate 100 0x61)
   \<and> length (trim (drop (breakAt (replicate 100 0x61)) (replicate 100 0x61))) < 100"
proof -
  have long: "MAX_CHARS_PER_LINE < length (replicate 100 (0x61 :: code_unit))"
    by (simp add: MAX_CHARS_PER_LINE_def)
  with wrapLoop_terminates [of "replicate 100 0x61" "[]" "[]"] show ?thesis
    by simp
qed

subsection \<open>Splitting into parts\<close>






declare split_from.simps(2) [simp del]













section \<open>Properties of the scroll controller\<close>

subsection \<open>The frame step\<close>

lemma step_scrollPosition:
  "scrollPosition (step container content now v)
     = min (scrollPosition v + getPxPerSecond (currentSpeed v) * ((now - lastTimeRef v) / 1000))
           (maxOffset container content)"
  by (simp add: step_def maxOffset_def Let_def)

lemma step_playing:
  "playing (step container content now v)
     \<longleftrightarrow> playing v \<and> \<not> (0 < maxOffset container content
          \<and> maxOffset container content
               \<le> scrollPosition v + getPxPerSecond (currentSpeed v) * ((now - lastTimeRef v) / 1000))"
  by (simp add: step_def maxOffset_def Let_def)

text \<open>
  C4: whenever a frame step leaves the offset equal to the maximum offset and that
  maximum is positive, the same step has set \<open>playing\<close> to false. (The step runs only
  while playing; the statement needs no assumption on the state before.)
\<close>

theorem step_pauses_at_end:
  assumes "0 < maxOffset container content"
    and "scrollPosition (step container content now v) = maxOffset container content"
  shows "\<not> playing (step container content now v)"
  using assms unfolding step_scrollPosition step_playing by auto

theorem step_pauses_at_end_witness:
  "0 < maxOffset \<lparr>container_scrollTop = 10, container_clientHeight = 400, container_scrollHeight = 431\<rparr>
         \<lparr>content_scrollHeight = 415\<rparr>
   \<and> scrollPosition
        (step \<lparr>container_scrollTop = 10, container_clientHeight = 400, container_scrollHeight = 431\<rparr>
           \<lparr>content_scrollHeight = 415\<rparr> 400
           ((initialView [] \<lparr>container_scrollTop = 10, container_clientHeight = 400, container_scrollHeight = 431\<rparr>
              \<lparr>content_scrollHeight = 415\<rparr> [])\<lparr>playing := True, scrollPosition := 10\<rparr>)) = 15
   \<and> \<not> playing
        (step \<lparr>container_scrollTop = 10, container_clientHeight = 400, container_scrollHeight = 431\<rparr>
           \<lparr>content_scrollHeight = 415\<rparr> 400
           ((initialView [] \<lparr>container_scrollTop = 10, container_clientHeight = 400, container_scrollHeight = 431\<rparr>
              \<lparr>content_scrollHeight = 415\<rparr> [])\<lparr>playing := True, scrollPosition := 10\<rparr>))"
proof -
  let ?c = "\<lparr>container_scrollTop = 10, container_clientHeight = 400, container_scrollHeight = 431\<rparr>"
  let ?k = "\<lparr>content_scrollHeight = 415\<rparr>"
  let ?v = "(initialView [] ?c ?k [])\<lparr>playing := True, scrollPosition := 10\<rparr>"
  have m: "maxOffset ?c ?k = 15"
    by (simp add: maxOffset_def)
  have p: "scrollPosition (step ?c ?k 400 ?v) = 15"
    by (simp add: step_scrollPosition m initialView_def getPxPerSecond_def
        PX_PER_SEC_BASE_def PX_PER_SEC_PER_UNIT_def)
  have "\<not> playing (step ?c ?k 400 ?v)"
    by (rule step_pauses_at_end) (simp_all add: m p)
  with m p show ?thesis by simp
qed

text \<open>
  C7: the frame step sets the offset to
  \<open>min (offset + (BASE + speed * PER_UNIT) * dt) maxOffset\<close>, where \<open>dt\<close> is the time
  since the last step in seconds. The constants are \<open>BASE = 5\<close> and \<open>PER_UNIT = 3\<close>,
  so speed 5 gives 20 pixels per second, and a step of one second from offset 0 with
  maximum offset 100 gives offset 20.
\<close>

theorem step_offset_formula:
  "scrollPosition (step container content now v)
     = min (scrollPosition v
              + (PX_PER_SEC_BASE + currentSpeed v * PX_PER_SEC_PER_UNIT)
                * ((now - lastTimeRef v) / 1000))
           (maxOffset container content)
   \<and> PX_PER_SEC_BASE = 5 \<and> PX_PER_SEC_PER_UNIT = 3 \<and> getPxPerSecond 5 = 20
   \<and> maxOffset \<lparr>container_scrollTop = 0, container_clientHeight = 400, container_scrollHeight = 516\<rparr>
        \<lparr>content_scrollHeight = 500\<rparr> = 100
   \<and> scrollPosition
        (step \<lparr>container_scrollTop = 0, container_clientHeight = 400, container_scrollHeight = 516\<rparr>
           \<lparr>content_scrollHeight = 500\<rparr> 1000
           ((initialView segs \<lparr>container_scrollTop = 0, container_clientHeight = 400, container_scrollHeight = 516\<rparr>
              \<lparr>content_scrollHeight = 500\<rparr> refs)\<lparr>playing := True\<rparr>)) = 20"
  by (simp add: step_scrollPosition maxOffset_def initialView_def getPxPerSecond_def
      PX_PER_SEC_BASE_def PX_PER_SEC_PER_UNIT_def)

text \<open>
  C8 (as the code has it): a frame step with no time elapsed leaves the offset
  unchanged when the offset is at most the maximum offset; from an offset above the
  maximum offset it sets the offset to the maximum offset.
\<close>

theorem step_zero_delta:
  "(scrollPosition v \<le> maxOffset container content \<longrightarrow>
      scrollPosition (step container content (lastTimeRef v) v) = scrollPosition v)
   \<and> (maxOffset container content < scrollPosition v \<longrightarrow>
      scrollPosition (step container content (lastTimeRef v) v) = maxOffset container content)"
  by (simp add: step_scrollPosition)

theorem step_zero_delta_witness:
  "scrollPosition
     ((initialView []
         \<lparr>container_scrollTop = 40, container_clientHeight = 400, container_scrollHeight = 516\<rparr>
         \<lparr>content_scrollHeight = 500\<rparr> [])
        \<lparr>playing := True, scrollPosition := 40, lastTimeRef := 7\<rparr>)
     \<le> maxOffset
         \<lparr>container_scrollTop = 40, container_clientHeight = 400, container_scrollHeight = 516\<rparr>
         \<lparr>content_scrollHeight = 500\<rparr>
   \<and> scrollPosition
        (step
           \<lparr>container_scrollTop = 40, container_clientHeight = 400, container_scrollHeight = 516\<rparr>
           \<lparr>content_scrollHeight = 500\<rparr> 7
           ((initialView []
               \<lparr>container_scrollTop = 40, container_clientHeight = 400, container_scrollHeight = 516\<rparr>
               \<lparr>content_scrollHeight = 500\<rparr> [])
              \<lparr>playing := True, scrollPosition := 40, lastTimeRef := 7\<rparr>)) = 40"
proof -
  let ?c = "\<lparr>container_scrollTop = 40, container_clientHeight = 400, container_scrollHeight = 516\<rparr>"
  let ?k = "\<lparr>content_scrollHeight = 500\<rparr>"
  let ?v = "(initialView [] ?c ?k [])\<lparr>playing := True, scrollPosition := 40, lastTimeRef := 7\<rparr>"
  have le: "scrollPosition ?v \<le> maxOffset ?c ?k"
    by (simp add: maxOffset_def)
  from step_zero_delta [of ?v ?c ?k] le show ?thesis by simp
qed

text \<open>
  C8 as stated fails in a state whose offset is above the maximum offset; the component
  reaches such states, since recomputing the geometry does not clamp the offset and
  seeking a segment uses the container's own scroll range. With content height 100 and
  viewport height 80 the maximum offset is 20, and the step with no time elapsed takes
  the offset from 50 to 20.
\<close>

theorem step_zero_delta_counterexample:
  "(\<lambda>v. (scrollPosition v, maxScroll v))
     (updateMaxScroll
        ((initialView []
            \<lparr>container_scrollTop = 50, container_clientHeight = 80, container_scrollHeight = 116\<rparr>
            \<lparr>content_scrollHeight = 100\<rparr> [])
           \<lparr>playing := True, scrollPosition := 50, lastTimeRef := 7\<rparr>)) = (50, 20)
   \<and> scrollPosition
        (step
           \<lparr>container_scrollTop = 50, container_clientHeight = 80, container_scrollHeight = 116\<rparr>
           \<lparr>content_scrollHeight = 100\<rparr> 7
           (updateMaxScroll
              ((initialView []
                  \<lparr>container_scrollTop = 50, container_clientHeight = 80, container_scrollHeight = 116\<rparr>
                  \<lparr>content_scrollHeight = 100\<rparr> [])
                 \<lparr>playing := True, scrollPosition := 50, lastTimeRef := 7\<rparr>))) = 20"
  by (simp add: step_scrollPosition maxOffset_def updateMaxScroll_def initialView_def)

subsection \<open>Recomputing the geometry\<close>

text \<open>
  C5 (as the code has it): with both elements mounted, \<open>updateMaxScroll\<close> sets the
  stored maximum to \<open>max 0 (content height - viewport height)\<close> and the stored viewport
  height to the container's, leaves the offset as it is, and is idempotent.
\<close>

theorem updateMaxScroll_recomputes:
  assumes "containerRef v = Some container" and "contentRef v = Some content"
  shows "maxScroll (updateMaxScroll v)
           = max 0 (content_scrollHeight content - container_clientHeight container)
         \<and> viewportHeight (updateMaxScroll v) = container_clientHeight container
         \<and> scrollPosition (updateMaxScroll v) = scrollPosition v
         \<and> updateMaxScroll (updateMaxScroll v) = updateMaxScroll v"
  using assms by (simp add: updateMaxScroll_def)

theorem updateMaxScroll_recomputes_witness:
  "maxScroll (updateMaxScroll
      ((initialView [] \<lparr>container_scrollTop = 50, container_clientHeight = 80, container_scrollHeight = 116\<rparr>
          \<lparr>content_scrollHeight = 100\<rparr> [])\<lparr>scrollPosition := 50, maxScroll := 70, viewportHeight := 30\<rparr>)) = 20
   \<and> updateMaxScroll (updateMaxScroll
      ((initialView [] \<lparr>container_scrollTop = 50, container_clientHeight = 80, container_scrollHeight = 116\<rparr>
          \<lparr>content_scrollHeight = 100\<rparr> [])\<lparr>scrollPosition := 50, maxScroll := 70, viewportHeight := 30\<rparr>))
     = updateMaxScroll
      ((initialView [] \<lparr>container_scrollTop = 50, container_clientHeight = 80, container_scrollHeight = 116\<rparr>
          \<lparr>content_scrollHeight = 100\<rparr> [])\<lparr>scrollPosition := 50, maxScroll := 70, viewportHeight := 30\<rparr>)"
proof -
  let ?c = "\<lparr>container_scrollTop = 50, container_clientHeight = 80, container_scrollHeight = 116\<rparr>"
  let ?k = "\<lparr>content_scrollHeight = 100\<rparr>"
  let ?v = "(initialView [] ?c ?k [])\<lparr>scrollPosition := 50, maxScroll := 70, viewportHeight := 30\<rparr>"
  have c: "containerRef ?v = Some ?c" and k: "contentRef ?v = Some ?k"
    by (simp_all add: initialView_def)
  from updateMaxScroll_recomputes [OF c k] show ?thesis by simp
qed

text \<open>
  C5 as stated fails: \<open>updateMaxScroll\<close> does not clamp the offset. With content height
  100 and viewport height 80 the maximum becomes 20 and the offset stays 50.
\<close>

theorem updateMaxScroll_no_clamp_counterexample:
  "maxScroll (updateMaxScroll
      ((initialView [] \<lparr>container_scrollTop = 50, container_clientHeight = 80, container_scrollHeight = 116\<rparr>
          \<lparr>content_scrollHeight = 100\<rparr> [])\<lparr>scrollPosition := 50, maxScroll := 70, viewportHeight := 30\<rparr>)) = 20
   \<and> scrollPosition (updateMaxScroll
      ((initialView [] \<lparr>container_scrollTop = 50, container_clientHeight = 80, container_scrollHeight = 116\<rparr>
          \<lparr>content_scrollHeight = 100\<rparr> [])\<lparr>scrollPosition := 50, maxScroll := 70, viewportHeight := 30\<rparr>)) = 50"
  by (simp add: updateMaxScroll_def initialView_def)

subsection \<open>Seeking a segment\<close>

lemma isEmpty_in_range:
  "0 \<le> i \<Longrightarrow> i < int (length segs) \<Longrightarrow> isEmpty segs i = Inr (trim (segs ! nat i) = [])"
  by (simp add: isEmpty_def)

lemma isEmpty_Inr_range: "isEmpty segs i = Inr b \<Longrightarrow> 0 \<le> i \<and> i < int (length segs)"
  by (simp add: isEmpty_def split: if_splits)

lemma walkForward_spec:
  "0 \<le> i \<Longrightarrow>
   \<exists>j. walkForward segs i = Inr j \<and> i \<le> j \<and> j \<le> max i (int (length segs))
       \<and> (\<forall>k. i \<le> k \<and> k < j \<longrightarrow> isEmpty segs k = Inr True)
       \<and> (j < int (length segs) \<longrightarrow> isEmpty segs j = Inr False)"
proof (induction segs i rule: walkForward.induct)
  case (1 segs i)
  show ?case
  proof (cases "i < int (length segs)")
    case False
    then show ?thesis
      by (subst walkForward.simps) auto
  next
    case True
    with "1.prems" have e: "isEmpty segs i = Inr (trim (segs ! nat i) = [])"
      by (simp add: isEmpty_in_range)
    show ?thesis
    proof (cases "trim (segs ! nat i) = []")
      case False
      with True e show ?thesis
        by (subst walkForward.simps) auto
    next
      case empty: True
      from "1.IH" [OF True e empty] "1.prems"
      obtain j where j: "walkForward segs (i + 1) = Inr j" "i + 1 \<le> j"
        "j \<le> max (i + 1) (int (length segs))"
        "\<forall>k. i + 1 \<le> k \<and> k < j \<longrightarrow> isEmpty segs k = Inr True"
        "j < int (length segs) \<longrightarrow> isEmpty segs j = Inr False"
        by auto
      have w: "walkForward segs i = Inr j"
        using True e empty j(1) by (subst walkForward.simps) simp
      have "\<forall>k. i \<le> k \<and> k < j \<longrightarrow> isEmpty segs k = Inr True"
      proof (intro allI impI)
        fix k assume k: "i \<le> k \<and> k < j"
        show "isEmpty segs k = Inr True"
        proof (cases "k = i")
          case True
          with e empty show ?thesis by simp
        next
          case False
          with k j(4) show ?thesis by simp
        qed
      qed
      with w j True show ?thesis by auto
    qed
  qed
qed

lemma walkBackward_spec:
  "i < int (length segs) \<Longrightarrow>
   \<exists>j. walkBackward segs i = Inr j \<and> j \<le> i \<and> min i (- 1) \<le> j
       \<and> (\<forall>k. j < k \<and> k \<le> i \<longrightarrow> isEmpty segs k = Inr True)
       \<and> (0 \<le> j \<longrightarrow> isEmpty segs j = Inr False)"
proof (induction segs i rule: walkBackward.induct)
  case (1 segs i)
  show ?case
  proof (cases "0 \<le> i")
    case False
    then show ?thesis
      by (subst walkBackward.simps) auto
  next
    case True
    with "1.prems" have e: "isEmpty segs i = Inr (trim (segs ! nat i) = [])"
      by (simp add: isEmpty_in_range)
    show ?thesis
    proof (cases "trim (segs ! nat i) = []")
      case False
      with True e show ?thesis
        by (subst walkBackward.simps) auto
    next
      case empty: True
      from "1.IH" [OF True e empty] "1.prems"
      obtain j where j: "walkBackward segs (i - 1) = Inr j" "j \<le> i - 1"
        "min (i - 1) (- 1) \<le> j"
        "\<forall>k. j < k \<and> k \<le> i - 1 \<longrightarrow> isEmpty segs k = Inr True"
        "0 \<le> j \<longrightarrow> isEmpty segs j = Inr False"
        by auto
      have w: "walkBackward segs i = Inr j"
        using True e empty j(1) by (subst walkBackward.simps) simp
      have "\<forall>k. j < k \<and> k \<le> i \<longrightarrow> isEmpty segs k = Inr True"
      proof (intro allI impI)
        fix k assume k: "j < k \<and> k \<le> i"
        show "isEmpty segs k = Inr True"
        proof (cases "k = i")
          case True
          with e empty show ?thesis by simp
        next
          case False
          with k j(4) show ?thesis by simp
        qed
      qed
      with w j True show ?thesis by auto
    qed
  qed
qed

lemma walkBackward_raises:
  "int (length segs) \<le> i \<Longrightarrow> walkBackward segs i = Inl TypeError"
  by (subst walkBackward.simps) (simp add: isEmpty_def)

lemma clamped_index_in_range:
  "segs \<noteq> [] \<Longrightarrow> 0 \<le> max 0 (min index (int (length segs) - 1))
     \<and> max 0 (min index (int (length segs) - 1)) < int (length segs)"
  by (cases segs) auto

lemma targetIndex_Next:
  assumes "segs \<noteq> []"
    and "\<exists>k. max 0 (min index (int (length segs) - 1)) \<le> k \<and> isEmpty segs k = Inr False"
  shows "\<exists>j. targetIndex segs index (Some Next) = Inr j
           \<and> max 0 (min index (int (length segs) - 1)) \<le> j \<and> isEmpty segs j = Inr False
           \<and> (\<forall>k. max 0 (min index (int (length segs) - 1)) \<le> k \<and> k < j
                  \<longrightarrow> isEmpty segs k = Inr True)"
proof -
  define n where "n = int (length segs)"
  define i0 where "i0 = max 0 (min index (n - 1))"
  have r: "0 \<le> i0" "i0 < n"
    using clamped_index_in_range [OF assms(1), of index] by (simp_all add: i0_def n_def)
  then have e: "isEmpty segs i0 = Inr (trim (segs ! nat i0) = [])"
    by (simp add: isEmpty_in_range n_def)
  from assms(2) obtain k where k: "i0 \<le> k" "isEmpty segs k = Inr False"
    by (auto simp: i0_def n_def)
  then have kn: "k < n" using isEmpty_Inr_range [of segs k False] by (simp add: n_def)
  show ?thesis
  proof (cases "trim (segs ! nat i0) = []")
    case False
    with e have "targetIndex segs index (Some Next) = Inr i0"
      by (simp add: targetIndex_def Let_def i0_def n_def)
    with e False show ?thesis
      by (auto simp: i0_def n_def)
  next
    case True
    from walkForward_spec [OF r(1), of segs]
    obtain j where j: "walkForward segs i0 = Inr j" "i0 \<le> j"
      "\<forall>k. i0 \<le> k \<and> k < j \<longrightarrow> isEmpty segs k = Inr True"
      "j < n \<longrightarrow> isEmpty segs j = Inr False"
      by (auto simp: n_def)
    have jn: "j < n"
    proof (rule ccontr)
      assume "\<not> j < n"
      with k kn j(3) have "isEmpty segs k = Inr True" by simp
      with k(2) show False by simp
    qed
    then have "min j (n - 1) = j" by simp
    with e True j(1) have "targetIndex segs index (Some Next) = Inr j"
      by (simp add: targetIndex_def Let_def i0_def n_def)
    with j jn show ?thesis
      by (auto simp: i0_def n_def)
  qed
qed

lemma targetIndex_Prev:
  assumes "segs \<noteq> []"
    and "\<exists>k. k \<le> max 0 (min index (int (length segs) - 1)) \<and> isEmpty segs k = Inr False"
  shows "\<exists>j. targetIndex segs index (Some Prev) = Inr j
           \<and> j \<le> max 0 (min index (int (length segs) - 1)) \<and> isEmpty segs j = Inr False
           \<and> (\<forall>k. j < k \<and> k \<le> max 0 (min index (int (length segs) - 1))
                  \<longrightarrow> isEmpty segs k = Inr True)"
proof -
  define n where "n = int (length segs)"
  define i0 where "i0 = max 0 (min index (n - 1))"
  have r: "0 \<le> i0" "i0 < n"
    using clamped_index_in_range [OF assms(1), of index] by (simp_all add: i0_def n_def)
  then have e: "isEmpty segs i0 = Inr (trim (segs ! nat i0) = [])"
    by (simp add: isEmpty_in_range n_def)
  from assms(2) obtain k where k: "k \<le> i0" "isEmpty segs k = Inr False"
    by (auto simp: i0_def n_def)
  then have k0: "0 \<le> k" using isEmpty_Inr_range [of segs k False] by simp
  show ?thesis
  proof (cases "trim (segs ! nat i0) = []")
    case False
    with e have "targetIndex segs index (Some Prev) = Inr i0"
      by (simp add: targetIndex_def Let_def i0_def n_def)
    with e False show ?thesis
      by (auto simp: i0_def n_def)
  next
    case True
    from walkBackward_spec [of i0 segs] r(2)
    obtain j where j: "walkBackward segs i0 = Inr j" "j \<le> i0"
      "\<forall>k. j < k \<and> k \<le> i0 \<longrightarrow> isEmpty segs k = Inr True"
      "0 \<le> j \<longrightarrow> isEmpty segs j = Inr False"
      by (auto simp: n_def)
    have j0: "0 \<le> j"
    proof (rule ccontr)
      assume "\<not> 0 \<le> j"
      with k k0 j(3) have "isEmpty segs k = Inr True" by simp
      with k(2) show False by simp
    qed
    then have "max j 0 = j" by simp
    with e True j(1) have "targetIndex segs index (Some Prev) = Inr j"
      by (simp add: targetIndex_def Let_def i0_def n_def)
    with j j0 show ?thesis
      by (auto simp: i0_def n_def)
  qed
qed

lemma targetIndex_None_forward:
  assumes "segs \<noteq> []"
    and "\<exists>k. max 0 (min index (int (length segs) - 1)) \<le> k \<and> isEmpty segs k = Inr False"
  shows "targetIndex segs index None = targetIndex segs index (Some Next)"
proof -
  define n where "n = int (length segs)"
  define i0 where "i0 = max 0 (min index (n - 1))"
  have r: "0 \<le> i0" "i0 < n"
    using clamped_index_in_range [OF assms(1), of index] by (simp_all add: i0_def n_def)
  from assms(2) obtain k where k: "i0 \<le> k" "isEmpty segs k = Inr False"
    by (auto simp: i0_def n_def)
  then have kn: "k < n" using isEmpty_Inr_range [of segs k False] by (simp add: n_def)
  from walkForward_spec [OF r(1), of segs]
  obtain j where j: "walkForward segs i0 = Inr j"
    "\<forall>k. i0 \<le> k \<and> k < j \<longrightarrow> isEmpty segs k = Inr True"
    by (auto simp: n_def)
  have "j < n"
  proof (rule ccontr)
    assume "\<not> j < n"
    with k kn j(2) have "isEmpty segs k = Inr True" by simp
    with k(2) show False by simp
  qed
  with j(1) show ?thesis
    by (simp add: targetIndex_def Let_def i0_def n_def split: sum.splits)
qed

lemma targetIndex_None_backward:
  assumes "segs \<noteq> []"
    and "\<not> (\<exists>k. max 0 (min index (int (length segs) - 1)) \<le> k \<and> isEmpty segs k = Inr False)"
  shows "targetIndex segs index None =
           (case walkBackward segs index of Inl e \<Rightarrow> Inl e | Inr k \<Rightarrow> Inr (max k 0))"
proof -
  define n where "n = int (length segs)"
  define i0 where "i0 = max 0 (min index (n - 1))"
  have r: "0 \<le> i0" "i0 < n"
    using clamped_index_in_range [OF assms(1), of index] by (simp_all add: i0_def n_def)
  then have e: "isEmpty segs i0 = Inr (trim (segs ! nat i0) = [])"
    by (simp add: isEmpty_in_range n_def)
  have none: "\<And>k. i0 \<le> k \<Longrightarrow> isEmpty segs k \<noteq> Inr False"
    using assms(2) by (auto simp: i0_def n_def)
  from none [of i0] e have empty: "trim (segs ! nat i0) = []" by auto
  from walkForward_spec [OF r(1), of segs]
  obtain j where j: "walkForward segs i0 = Inr j" "i0 \<le> j"
    "j < n \<longrightarrow> isEmpty segs j = Inr False"
    by (auto simp: n_def)
  have "n \<le> j"
    using none [OF j(2)] j(3) by auto
  with e empty j(1) show ?thesis
    by (simp add: targetIndex_def Let_def i0_def n_def)
qed

lemma targetIndex_None_back_lands:
  assumes "segs \<noteq> []"
    and "\<not> (\<exists>k. max 0 (min index (int (length segs) - 1)) \<le> k \<and> isEmpty segs k = Inr False)"
    and "index < int (length segs)"
    and "\<exists>k. k \<le> index \<and> isEmpty segs k = Inr False"
  shows "\<exists>j. targetIndex segs index None = Inr j \<and> j \<le> index \<and> isEmpty segs j = Inr False
           \<and> (\<forall>k. j < k \<and> k \<le> index \<longrightarrow> isEmpty segs k = Inr True)"
proof -
  from assms(4) obtain k where k: "k \<le> index" "isEmpty segs k = Inr False" by auto
  then have k0: "0 \<le> k" using isEmpty_Inr_range [of segs k False] by simp
  from walkBackward_spec [OF assms(3)]
  obtain j where j: "walkBackward segs index = Inr j" "j \<le> index"
    "\<forall>k. j < k \<and> k \<le> index \<longrightarrow> isEmpty segs k = Inr True"
    "0 \<le> j \<longrightarrow> isEmpty segs j = Inr False"
    by auto
  have j0: "0 \<le> j"
  proof (rule ccontr)
    assume "\<not> 0 \<le> j"
    with k k0 j(3) have "isEmpty segs k = Inr True" by simp
    with k(2) show False by simp
  qed
  then have "max j 0 = j" by simp
  with targetIndex_None_backward [OF assms(1,2)] j(1)
  have "targetIndex segs index None = Inr j" by simp
  with j j0 show ?thesis by auto
qed

lemma targetIndex_None_raises:
  assumes "segs \<noteq> []"
    and "\<not> (\<exists>k. max 0 (min index (int (length segs) - 1)) \<le> k \<and> isEmpty segs k = Inr False)"
    and "int (length segs) \<le> index"
  shows "targetIndex segs index None = Inl TypeError"
  using targetIndex_None_backward [OF assms(1,2)] walkBackward_raises [OF assms(3)] by simp

text \<open>
  C6: \<open>goToSegment\<close> never settles on a skip target (a segment whose trimmed text is
  empty, the spacer included) when a segment that is not one exists in the direction
  searched. With \<open>i0\<close> the clamped index: with direction \<open>next\<close> it settles on the first
  such segment at or after \<open>i0\<close>; with \<open>prev\<close> on the last one at or before \<open>i0\<close>;
  with no direction on the first one at or after \<open>i0\<close> and, only when there is none, on
  the last one at or before the argument \<open>index\<close>, from which the backward walk starts.
  In each of these cases the index is returned, not an error. The backward walk of the
  directionless call reads \<open>segments[index]\<close> first: for an \<open>index\<close> beyond the end
  of the list (and no such segment from the last one on) the call raises a TypeError
  and settles nowhere. So no call settles on a skip target while the direction it
  searches holds a segment that is none.
\<close>

theorem goToSegment_never_lands_on_skip_target:
  assumes "segs \<noteq> []"
  shows
    "(let i0 = max 0 (min index (int (length segs) - 1)) in
       ((\<exists>k. i0 \<le> k \<and> isEmpty segs k = Inr False) \<longrightarrow>
          (\<exists>j. targetIndex segs index (Some Next) = Inr j \<and> i0 \<le> j
               \<and> isEmpty segs j = Inr False
               \<and> (\<forall>k. i0 \<le> k \<and> k < j \<longrightarrow> isEmpty segs k = Inr True)))
     \<and> ((\<exists>k. k \<le> i0 \<and> isEmpty segs k = Inr False) \<longrightarrow>
          (\<exists>j. targetIndex segs index (Some Prev) = Inr j \<and> j \<le> i0
               \<and> isEmpty segs j = Inr False
               \<and> (\<forall>k. j < k \<and> k \<le> i0 \<longrightarrow> isEmpty segs k = Inr True)))
     \<and> ((\<exists>k. i0 \<le> k \<and> isEmpty segs k = Inr False) \<longrightarrow>
          (\<exists>j. targetIndex segs index None = Inr j \<and> i0 \<le> j
               \<and> isEmpty segs j = Inr False
               \<and> (\<forall>k. i0 \<le> k \<and> k < j \<longrightarrow> isEmpty segs k = Inr True)))
     \<and> (\<not> (\<exists>k. i0 \<le> k \<and> isEmpty segs k = Inr False) \<and> index < int (length segs)
          \<and> (\<exists>k. k \<le> index \<and> isEmpty segs k = Inr False) \<longrightarrow>
          (\<exists>j. targetIndex segs index None = Inr j \<and> j \<le> index
               \<and> isEmpty segs j = Inr False
               \<and> (\<forall>k. j < k \<and> k \<le> index \<longrightarrow> isEmpty segs k = Inr True)))
     \<and> (\<not> (\<exists>k. i0 \<le> k \<and> isEmpty segs k = Inr False) \<and> int (length segs) \<le> index
          \<longrightarrow> targetIndex segs index None = Inl TypeError))"
proof -
  define i0 where "i0 = max 0 (min index (int (length segs) - 1))"
  have a: "(\<exists>k. i0 \<le> k \<and> isEmpty segs k = Inr False) \<longrightarrow>
          (\<exists>j. targetIndex segs index (Some Next) = Inr j \<and> i0 \<le> j
               \<and> isEmpty segs j = Inr False
               \<and> (\<forall>k. i0 \<le> k \<and> k < j \<longrightarrow> isEmpty segs k = Inr True))"
    unfolding i0_def using targetIndex_Next [OF assms, of index] by blast
  have b: "(\<exists>k. k \<le> i0 \<and> isEmpty segs k = Inr False) \<longrightarrow>
          (\<exists>j. targetIndex segs index (Some Prev) = Inr j \<and> j \<le> i0
               \<and> isEmpty segs j = Inr False
               \<and> (\<forall>k. j < k \<and> k \<le> i0 \<longrightarrow> isEmpty segs k = Inr True))"
    unfolding i0_def using targetIndex_Prev [OF assms, of index] by blast
  have c: "(\<exists>k. i0 \<le> k \<and> isEmpty segs k = Inr False) \<longrightarrow>
          (\<exists>j. targetIndex segs index None = Inr j \<and> i0 \<le> j
               \<and> isEmpty segs j = Inr False
               \<and> (\<forall>k. i0 \<le> k \<and> k < j \<longrightarrow> isEmpty segs k = Inr True))"
    unfolding i0_def
    using targetIndex_Next [OF assms, of index] targetIndex_None_forward [OF assms, of index]
    by presburger
  have d: "\<not> (\<exists>k. i0 \<le> k \<and> isEmpty segs k = Inr False) \<and> index < int (length segs)
          \<and> (\<exists>k. k \<le> index \<and> isEmpty segs k = Inr False) \<longrightarrow>
          (\<exists>j. targetIndex segs index None = Inr j \<and> j \<le> index
               \<and> isEmpty segs j = Inr False
               \<and> (\<forall>k. j < k \<and> k \<le> index \<longrightarrow> isEmpty segs k = Inr True))"
    unfolding i0_def using targetIndex_None_back_lands [OF assms, of index] by blast
  have e: "\<not> (\<exists>k. i0 \<le> k \<and> isEmpty segs k = Inr False) \<and> int (length segs) \<le> index
          \<longrightarrow> targetIndex segs index None = Inl TypeError"
    unfolding i0_def using targetIndex_None_raises [OF assms, of index] by blast
  from a b c d e show ?thesis
    unfolding Let_def i0_def by blast
qed

theorem goToSegment_never_lands_on_skip_target_witness:
  "[[LF], [0x61], [LF]] \<noteq> ([] :: jsstring list)
   \<and> (\<exists>k. 0 \<le> k \<and> isEmpty [[LF], [0x61], [LF]] k = Inr False)
   \<and> (\<exists>j. targetIndex [[LF], [0x61], [LF]] 0 (Some Next) = Inr j
          \<and> isEmpty [[LF], [0x61], [LF]] j = Inr False)
   \<and> (\<exists>j. targetIndex [[LF], [0x61], [LF]] 0 None = Inr j
          \<and> isEmpty [[LF], [0x61], [LF]] j = Inr False)
   \<and> (\<exists>k. k \<le> 2 \<and> isEmpty [[LF], [0x61], [LF]] k = Inr False)
   \<and> (\<exists>j. targetIndex [[LF], [0x61], [LF]] 2 (Some Prev) = Inr j
          \<and> isEmpty [[LF], [0x61], [LF]] j = Inr False)
   \<and> (\<exists>j. targetIndex [[LF], [0x61], [LF]] 2 None = Inr j
          \<and> isEmpty [[LF], [0x61], [LF]] j = Inr False)"
proof -
  let ?S = "[[LF], [0x61], [LF]] :: jsstring list"
  have ne: "?S \<noteq> []" by simp
  have e1: "isEmpty ?S 1 = Inr False"
    by (simp add: isEmpty_def trim_def isWhiteSpace_def LF_def)
  have e2: "isEmpty ?S 2 = Inr True"
    by (simp add: isEmpty_def trim_def isWhiteSpace_def LF_def)
  have fwd0: "\<exists>k. 0 \<le> k \<and> isEmpty ?S k = Inr False"
    using e1 by (intro exI [of _ 1]) simp
  have bwd2: "\<exists>k. k \<le> 2 \<and> isEmpty ?S k = Inr False"
    using e1 by (intro exI [of _ 1]) simp
  have nofwd2: "\<not> (\<exists>k. 2 \<le> k \<and> isEmpty ?S k = Inr False)"
  proof
    assume "\<exists>k. 2 \<le> k \<and> isEmpty ?S k = Inr False"
    then obtain k where k: "2 \<le> k" "isEmpty ?S k = Inr False" by auto
    from k(2) have "k < 3" using isEmpty_Inr_range [of ?S k False] by simp
    with k(1) have "k = 2" by simp
    with k(2) e2 show False by simp
  qed
  have i0: "max 0 (min 0 (int (length ?S) - 1)) = 0" by simp
  have i2: "max 0 (min 2 (int (length ?S) - 1)) = 2" by simp
  note t0 = goToSegment_never_lands_on_skip_target [OF ne, of 0, unfolded Let_def i0]
  note t2 = goToSegment_never_lands_on_skip_target [OF ne, of 2, unfolded Let_def i2]
  from t0 fwd0 have next0: "\<exists>j. targetIndex ?S 0 (Some Next) = Inr j \<and> isEmpty ?S j = Inr False"
    by blast
  from t0 fwd0 have none0: "\<exists>j. targetIndex ?S 0 None = Inr j \<and> isEmpty ?S j = Inr False"
    by blast
  from t2 bwd2 have prev2: "\<exists>j. targetIndex ?S 2 (Some Prev) = Inr j \<and> isEmpty ?S j = Inr False"
    by blast
  have lt: "(2::int) < int (length ?S)" by simp
  from t2 bwd2 nofwd2 lt have none2: "\<exists>j. targetIndex ?S 2 None = Inr j \<and> isEmpty ?S j = Inr False"
    by blast
  from ne fwd0 next0 none0 bwd2 prev2 none2 show ?thesis by blast
qed

text \<open>
  What \<open>goToSegment\<close> does with the index it settled on: it centres the element of that
  segment in the container, within the container's own scroll range.
\<close>

lemma goToSegment_scrolls_to_target:
  assumes "segments v \<noteq> []" and "targetIndex (segments v) index dir = Inr i"
    and "segmentRef v i = Some el" and "containerRef v = Some container"
  shows "goToSegment index dir v =
           Inr (v\<lparr>scrollPosition :=
                    max 0 (min (offsetTop el - container_clientHeight container / 2
                                  + offsetHeight el / 2)
                               (container_scrollHeight container
                                  - container_clientHeight container)),
                  containerRef :=
                    Some (container\<lparr>container_scrollTop :=
                      max 0 (min (offsetTop el - container_clientHeight container / 2
                                    + offsetHeight el / 2)
                                 (container_scrollHeight container
                                    - container_clientHeight container))\<rparr>)\<rparr>)"
  using assms by (simp add: goToSegment_def Let_def)

lemma goToSegment_raises:
  "segments v \<noteq> [] \<Longrightarrow> targetIndex (segments v) index dir = Inl e
   \<Longrightarrow> goToSegment index dir v = Inl e"
  by (simp add: goToSegment_def)

subsection \<open>The bounds of the offset\<close>

text \<open>
  The frame step (for an offset and an advance that are not negative), the line step
  and the reset leave the offset between 0 and \<open>maxOffset\<close>.
\<close>

lemma step_within_bounds:
  assumes "0 \<le> scrollPosition v"
    and "0 \<le> getPxPerSecond (currentSpeed v) * ((now - lastTimeRef v) / 1000)"
  shows "0 \<le> scrollPosition (step container content now v)
         \<and> scrollPosition (step container content now v) \<le> maxOffset container content"
  using assms by (simp add: step_scrollPosition maxOffset_def)


lemma handleReset_offset: "scrollPosition (handleReset v) = 0"
  by (simp add: handleReset_def)

text \<open>
  The scroll listener takes the offset from the container, whatever it is; the page
  keeps \<open>scrollTop\<close> within the container's scroll range.
\<close>

lemma onScroll_offset:
  "containerRef v = Some container
   \<Longrightarrow> scrollPosition (onScroll v) = container_scrollTop container"
  by (simp add: onScroll_def)

text \<open>
  C2, the invariant \<open>0 \<le> offset \<le> maxOffset\<close> after every operation, evaluated
  where it fails. \<open>goToSegment\<close> clamps to
  \<open>container.scrollHeight - container.clientHeight\<close>, the other operations to
  \<open>content.scrollHeight - container.clientHeight\<close>. The container pads its content
  (8 pixels above and below), so its scroll height is the greater one. In the state
  after mounting and measuring, with a viewport of 100, a content of 148 and a container
  scroll height of 164, the maximum offset is 48, and seeking the last segment from
  offset 0 sets the offset to 60.
\<close>

theorem goToSegment_exceeds_maxOffset:
  "maxOffset \<lparr>container_scrollTop = 0, container_clientHeight = 100, container_scrollHeight = 164\<rparr>
       \<lparr>content_scrollHeight = 148\<rparr> = 48
   \<and> map_sum id (\<lambda>v. (scrollPosition v, maxScroll v))
        (goToSegment 2 (Some Next)
           (updateMaxScroll
              (initialView [[0x61], spacer, [0x62]]
                 \<lparr>container_scrollTop = 0, container_clientHeight = 100, container_scrollHeight = 164\<rparr>
                 \<lparr>content_scrollHeight = 148\<rparr>
                 [Some \<lparr>offsetTop = 12, offsetHeight = 60\<rparr>, None,
                  Some \<lparr>offsetTop = 80, offsetHeight = 60\<rparr>]))) = Inr (60, 48)"
proof -
  have t: "targetIndex [[0x61], spacer, [0x62]] 2 (Some Next) = Inr 2"
    by code_simp
  show ?thesis
    by (simp add: maxOffset_def goToSegment_def updateMaxScroll_def initialView_def t
        segmentRef_def)
qed








text \<open>
  The condition on the container is needed: where the content is shorter than the
  viewport by less than the container's padding, the maximum offset is 0 but the
  container keeps a scroll range, and \<open>goToSegment\<close> moves the offset within it. With a
  viewport of 100, a content of 88 and a container scroll height of 104, seeking the
  last segment from offset 0 sets the offset to 4.
\<close>

lemma goToSegment_moves_within_padding:
  "maxOffset \<lparr>container_scrollTop = 0, container_clientHeight = 100, container_scrollHeight = 104\<rparr>
       \<lparr>content_scrollHeight = 88\<rparr> = 0
   \<and> map_sum id (\<lambda>v. (scrollPosition v, maxScroll v))
        (goToSegment 2 (Some Next)
           (updateMaxScroll
              (initialView [[0x61], spacer, [0x62]]
                 \<lparr>container_scrollTop = 0, container_clientHeight = 100, container_scrollHeight = 104\<rparr>
                 \<lparr>content_scrollHeight = 88\<rparr>
                 [Some \<lparr>offsetTop = 12, offsetHeight = 30\<rparr>, None,
                  Some \<lparr>offsetTop = 50, offsetHeight = 30\<rparr>]))) = Inr (4, 0)"
proof -
  have t: "targetIndex [[0x61], spacer, [0x62]] 2 (Some Next) = Inr 2"
    by code_simp
  show ?thesis
    by (simp add: maxOffset_def goToSegment_def updateMaxScroll_def initialView_def t
        segmentRef_def)
qed

end
